theory Spec2Isabelle
  imports Main "HOL-Library.Word"
begin

section \<open>The ring buffer of \<^verbatim>\<open>src/core/ring_buffer.h\<close>\<close>

text \<open>
  \<^verbatim>\<open>template <typename T, size_t Size> class LockFreeRingBuffer\<close> has three private
  members: the two cursors, \<^verbatim>\<open>std::atomic<size_t>\<close> initialised to 0, and the slot array
  \<^verbatim>\<open>std::array<T, Size> buffer_\<close>. The fields of the record are named after them, without
  the trailing underscore, which a record field cannot carry. The element type \<open>T\<close> is the
  type variable \<open>'a\<close>, the template argument \<open>Size\<close> is the first argument of every
  operation, and \<open>size_t\<close> is a 64-bit word, so that \<open>current_write + 1\<close> wraps as it does
  in the program.

  The embedding is sequential: one call runs to its end before the next one starts. The
  memory orders of the loads and stores have no meaning in it.
\<close>

type_synonym size_t = "64 word"

record 'a LockFreeRingBuffer =
  write_idx :: size_t
  read_idx :: size_t
  buffer :: "'a list"

text \<open>
  A freshly constructed buffer. The class has no constructor of its own: the cursors take
  their member initialisers, and slot \<open>i\<close> holds whatever default initialisation of \<open>T\<close>
  leaves there, \<open>init i\<close>.
\<close>

definition fresh :: "size_t \<Rightarrow> (nat \<Rightarrow> 'a) \<Rightarrow> 'a LockFreeRingBuffer" where
  "fresh Size init = \<lparr>write_idx = 0, read_idx = 0, buffer = map init [0..<unat Size]\<rparr>"

text \<open>
  \<^verbatim>\<open>bool TryPush(const T& item)\<close>. The result is the returned flag and the buffer after
  the call. The argument is read through a reference to const and copied into the slot,
  so it is an input only.
\<close>

definition TryPush :: "size_t \<Rightarrow> 'a \<Rightarrow> 'a LockFreeRingBuffer \<Rightarrow> bool \<times> 'a LockFreeRingBuffer" where
  "TryPush Size item s =
     (let current_write = write_idx s;
          next_write = (current_write + 1) mod Size
      in if next_write = read_idx s then (False, s)
         else (True, s\<lparr>buffer := (buffer s)[unat current_write := item],
                       write_idx := next_write\<rparr>))"

text \<open>
  \<^verbatim>\<open>bool TryPop(T* output)\<close>. The object behind the pointer is passed in as \<open>output\<close> and
  passed back as the second component of the result. The statement
  \<^verbatim>\<open>*output = std::move(buffer_[current_read])\<close> is a move assignment of \<open>T\<close>: the output
  object takes the value of the slot, and the slot keeps what the move assignment of \<open>T\<close>
  leaves in its source, \<open>moved_from out v\<close> for the old output \<open>out\<close> and the slot value \<open>v\<close>
  (\<open>v\<close> itself for a trivially copyable \<open>T\<close>).
\<close>

definition TryPop ::
  "size_t \<Rightarrow> ('a \<Rightarrow> 'a \<Rightarrow> 'a) \<Rightarrow> 'a \<Rightarrow> 'a LockFreeRingBuffer \<Rightarrow> bool \<times> 'a \<times> 'a LockFreeRingBuffer" where
  "TryPop Size moved_from output s =
     (let current_read = read_idx s
      in if current_read = write_idx s then (False, output, s)
         else (let v = buffer s ! unat current_read
               in (True, v,
                   s\<lparr>buffer := (buffer s)[unat current_read := moved_from output v],
                     read_idx := (current_read + 1) mod Size\<rparr>)))"

subsection \<open>Sequences of calls\<close>

text \<open>
  A caller, such as \<^verbatim>\<open>basic_functionality_test\<close> in \<^verbatim>\<open>src/tests/ring_buffer.cpp\<close>, makes
  one call after the other on the same buffer and passes the same \<^verbatim>\<open>result\<close> object to
  every \<^verbatim>\<open>TryPop\<close>. \<open>run\<close> does that for a list of calls and collects what each call
  returned: the flag, and for a pop also the output object as the call left it.
\<close>

datatype 'a call = Push 'a | Pop

datatype 'a outcome = Pushed bool | Popped bool 'a

fun run ::
  "size_t \<Rightarrow> ('a \<Rightarrow> 'a \<Rightarrow> 'a) \<Rightarrow> 'a call list \<Rightarrow> 'a \<times> 'a LockFreeRingBuffer
     \<Rightarrow> 'a outcome list \<times> 'a \<times> 'a LockFreeRingBuffer" where
  "run Size mf [] (out, s) = ([], out, s)"
| "run Size mf (Push x # cs) (out, s) =
     (let (ok, s1) = TryPush Size x s;
          (rs, st) = run Size mf cs (out, s1)
      in (Pushed ok # rs, st))"
| "run Size mf (Pop # cs) (out, s) =
     (let (ok, out1, s1) = TryPop Size mf out s;
          (rs, st) = run Size mf cs (out1, s1)
      in (Popped ok out1 # rs, st))"

text \<open>The states a buffer of capacity \<open>Size\<close> can be in: the fresh one, and those any call leads to.\<close>

inductive reachable :: "size_t \<Rightarrow> ('a \<Rightarrow> 'a \<Rightarrow> 'a) \<Rightarrow> 'a LockFreeRingBuffer \<Rightarrow> bool"
  for Size :: size_t and mf :: "'a \<Rightarrow> 'a \<Rightarrow> 'a" where
  reachable_fresh: "reachable Size mf (fresh Size init)"
| reachable_push: "reachable Size mf s \<Longrightarrow> reachable Size mf (snd (TryPush Size item s))"
| reachable_pop: "reachable Size mf s \<Longrightarrow> reachable Size mf (snd (snd (TryPop Size mf out s)))"

code_pred reachable .

subsection \<open>The invariant and the queue a state stands for\<close>

text \<open>
  Both cursors index the slot array, which has \<open>Size\<close> slots. Every reachable state of a
  buffer with at least one slot satisfies this (\<open>reachable_well_formed\<close> below), and no
  other state can arise, the members being private.
\<close>

definition well_formed :: "size_t \<Rightarrow> 'a LockFreeRingBuffer \<Rightarrow> bool" where
  "well_formed Size s \<longleftrightarrow>
     write_idx s < Size \<and> read_idx s < Size \<and> length (buffer s) = unat Size"

text \<open>The number of live elements, and the live elements from the oldest to the newest.\<close>

definition live_count :: "size_t \<Rightarrow> 'a LockFreeRingBuffer \<Rightarrow> nat" where
  "live_count Size s = (unat (write_idx s) + unat Size - unat (read_idx s)) mod unat Size"

definition contents :: "size_t \<Rightarrow> 'a LockFreeRingBuffer \<Rightarrow> 'a list" where
  "contents Size s =
     map (\<lambda>i. buffer s ! ((unat (read_idx s) + i) mod unat Size)) [0..<live_count Size s]"

section \<open>Single calls\<close>

lemma TryPush_full:
  "(write_idx s + 1) mod Size = read_idx s \<Longrightarrow> TryPush Size item s = (False, s)"
  by (simp add: TryPush_def Let_def)

lemma TryPush_not_full:
  "(write_idx s + 1) mod Size \<noteq> read_idx s \<Longrightarrow>
   TryPush Size item s =
     (True, s\<lparr>buffer := (buffer s)[unat (write_idx s) := item],
               write_idx := (write_idx s + 1) mod Size\<rparr>)"
  by (simp add: TryPush_def Let_def)

lemma TryPop_empty:
  "read_idx s = write_idx s \<Longrightarrow> TryPop Size mf out s = (False, out, s)"
  by (simp add: TryPop_def Let_def)

lemma TryPop_not_empty:
  "read_idx s \<noteq> write_idx s \<Longrightarrow>
   TryPop Size mf out s =
     (True, buffer s ! unat (read_idx s),
      s\<lparr>buffer := (buffer s)[unat (read_idx s) := mf out (buffer s ! unat (read_idx s))],
        read_idx := (read_idx s + 1) mod Size\<rparr>)"
  by (simp add: TryPop_def Let_def)

lemma unat_next_cursor:
  fixes c :: size_t
  assumes "c < Size"
  shows "unat ((c + 1) mod Size) = (if unat c + 1 = unat Size then 0 else unat c + 1)"
proof -
  have lt: "unat c < unat Size"
    using assms by (simp add: word_less_nat_alt)
  have "unat Size < 2 ^ 64"
    using unsigned_less [of Size] by simp
  with lt have "unat c + 1 < 2 ^ 64"
    by simp
  then have "unat (c + 1) = unat c + 1"
    by (simp add: unat_word_ariths)
  then have "unat ((c + 1) mod Size) = (unat c + 1) mod unat Size"
    by (simp add: unat_mod)
  with lt show ?thesis
    by (auto simp: le_less Suc_le_eq mod_less dest: less_antisym)
qed

section \<open>The invariant holds in every reachable state\<close>

lemma well_formed_nat:
  "well_formed Size s \<Longrightarrow>
     unat (write_idx s) < unat Size \<and> unat (read_idx s) < unat Size \<and> length (buffer s) = unat Size"
  by (simp add: well_formed_def word_less_nat_alt)

lemma fresh_well_formed: "0 < Size \<Longrightarrow> well_formed Size (fresh Size init)"
  by (simp add: well_formed_def fresh_def)

lemma next_cursor_less:
  fixes c :: size_t
  shows "c < Size \<Longrightarrow> (c + 1) mod Size < Size"
  by (simp add: word_less_nat_alt unat_next_cursor)

lemma TryPush_well_formed:
  "well_formed Size s \<Longrightarrow> well_formed Size (snd (TryPush Size item s))"
  by (simp add: TryPush_def Let_def well_formed_def next_cursor_less)

lemma TryPop_well_formed:
  "well_formed Size s \<Longrightarrow> well_formed Size (snd (snd (TryPop Size mf out s)))"
  by (simp add: TryPop_def Let_def well_formed_def next_cursor_less)

lemma reachable_well_formed:
  "reachable Size mf s \<Longrightarrow> 0 < Size \<Longrightarrow> well_formed Size s"
  by (induction rule: reachable.induct)
     (simp_all add: fresh_well_formed TryPush_well_formed TryPop_well_formed)

section \<open>The number of live elements\<close>

lemma live_count_cases:
  assumes "well_formed Size s"
  shows "live_count Size s =
     (if unat (read_idx s) \<le> unat (write_idx s) then unat (write_idx s) - unat (read_idx s)
      else unat (write_idx s) + unat Size - unat (read_idx s))"
proof -
  from assms have b: "unat (write_idx s) < unat Size" "unat (read_idx s) < unat Size"
    by (simp_all add: well_formed_nat)
  show ?thesis
  proof (cases "unat (read_idx s) \<le> unat (write_idx s)")
    case True
    then have "unat (write_idx s) + unat Size - unat (read_idx s)
               = (unat (write_idx s) - unat (read_idx s)) + unat Size" by simp
    then have "live_count Size s = (unat (write_idx s) - unat (read_idx s)) mod unat Size"
      unfolding live_count_def by (simp only: mod_add_self2)
    with True b show ?thesis by simp
  next
    case False
    with b show ?thesis by (simp add: live_count_def)
  qed
qed

lemma live_count_less: "well_formed Size s \<Longrightarrow> live_count Size s < unat Size"
  using well_formed_nat [of Size s] by (simp add: live_count_def)

lemma full_iff_live_count:
  assumes "well_formed Size s"
  shows "(write_idx s + 1) mod Size = read_idx s \<longleftrightarrow> live_count Size s = unat Size - 1"
proof -
  from assms have b: "unat (write_idx s) < unat Size" "unat (read_idx s) < unat Size"
    by (simp_all add: well_formed_nat)
  from assms have w: "write_idx s < Size" by (simp add: well_formed_def)
  have "(write_idx s + 1) mod Size = read_idx s
        \<longleftrightarrow> unat ((write_idx s + 1) mod Size) = unat (read_idx s)"
    by (simp add: word_unat_eq_iff)
  also have "\<dots> \<longleftrightarrow> live_count Size s = unat Size - 1"
    using b by (auto simp: unat_next_cursor [OF w] live_count_cases [OF assms])
  finally show ?thesis .
qed

lemma empty_iff_live_count:
  assumes "well_formed Size s"
  shows "read_idx s = write_idx s \<longleftrightarrow> live_count Size s = 0"
proof -
  from assms have b: "unat (write_idx s) < unat Size" "unat (read_idx s) < unat Size"
    by (simp_all add: well_formed_nat)
  have "read_idx s = write_idx s \<longleftrightarrow> unat (read_idx s) = unat (write_idx s)"
    by (simp add: word_unat_eq_iff)
  also have "\<dots> \<longleftrightarrow> live_count Size s = 0"
    using b by (auto simp: live_count_cases [OF assms])
  finally show ?thesis .
qed


section \<open>A push appends to the queue, a pop takes its head\<close>

lemma wrap_index:
  fixes r i n :: nat
  shows "r < n \<Longrightarrow> i < n \<Longrightarrow> (r + i) mod n = (if r + i < n then r + i else r + i - n)"
  by (simp add: mod_if)

lemma write_slot_index:
  assumes "well_formed Size s" and "i \<le> live_count Size s"
  shows "(unat (read_idx s) + i) mod unat Size = unat (write_idx s) \<longleftrightarrow> i = live_count Size s"
proof -
  from assms(1) have b: "unat (write_idx s) < unat Size" "unat (read_idx s) < unat Size"
    by (simp_all add: well_formed_nat)
  from assms have i: "i < unat Size"
    using live_count_less [OF assms(1)] by simp
  from assms(2) b show ?thesis
    by (auto simp: wrap_index [OF b(2) i] live_count_cases [OF assms(1)] split: if_splits)
qed

lemma TryPush_live_count:
  assumes "well_formed Size s" and "(write_idx s + 1) mod Size \<noteq> read_idx s"
  shows "live_count Size (snd (TryPush Size item s)) = Suc (live_count Size s)"
proof -
  let ?s' = "snd (TryPush Size item s)"
  from assms(1) have b: "unat (write_idx s) < unat Size" "unat (read_idx s) < unat Size"
    by (simp_all add: well_formed_nat)
  from assms(1) have w: "write_idx s < Size" by (simp add: well_formed_def)
  have wf': "well_formed Size ?s'"
    using assms(1) by (rule TryPush_well_formed)
  have nf: "live_count Size s \<noteq> unat Size - 1"
    using assms by (simp add: full_iff_live_count)
  have s': "read_idx ?s' = read_idx s"
    "unat (write_idx ?s') = (if unat (write_idx s) + 1 = unat Size then 0 else unat (write_idx s) + 1)"
    using assms(2) by (simp_all add: TryPush_not_full unat_next_cursor [OF w])
  from nf b show ?thesis
    by (auto simp: live_count_cases [OF wf'] live_count_cases [OF assms(1)] s' split: if_splits)
qed

lemma TryPush_contents:
  assumes "well_formed Size s" and "(write_idx s + 1) mod Size \<noteq> read_idx s"
  shows "contents Size (snd (TryPush Size item s)) = contents Size s @ [item]"
proof -
  let ?s' = "snd (TryPush Size item s)"
  let ?n = "unat Size" and ?r = "unat (read_idx s)" and ?w = "unat (write_idx s)"
  let ?c = "live_count Size s"
  from assms(1) have b: "?w < ?n" "length (buffer s) = ?n"
    by (simp_all add: well_formed_nat)
  have s': "read_idx ?s' = read_idx s" "buffer ?s' = (buffer s)[?w := item]"
    using assms(2) by (simp_all add: TryPush_not_full)
  have old: "buffer ?s' ! ((?r + i) mod ?n) = buffer s ! ((?r + i) mod ?n)" if "i < ?c" for i
    using that write_slot_index [OF assms(1), of i] by (simp add: s')
  have new: "buffer ?s' ! ((?r + ?c) mod ?n) = item"
    using write_slot_index [OF assms(1), of ?c] b by (simp add: s')
  have "contents Size ?s' = map (\<lambda>i. buffer ?s' ! ((?r + i) mod ?n)) [0..<Suc ?c]"
    by (simp only: contents_def TryPush_live_count [OF assms] s')
  also have "\<dots> = map (\<lambda>i. buffer ?s' ! ((?r + i) mod ?n)) [0..<?c] @ [item]"
    by (simp add: new)
  also have "map (\<lambda>i. buffer ?s' ! ((?r + i) mod ?n)) [0..<?c] = contents Size s"
    unfolding contents_def by (rule map_cong) (simp_all add: old)
  finally show ?thesis .
qed

lemma TryPop_live_count:
  assumes "well_formed Size s" and "read_idx s \<noteq> write_idx s"
  shows "live_count Size s = Suc (live_count Size (snd (snd (TryPop Size mf out s))))"
proof -
  let ?s' = "snd (snd (TryPop Size mf out s))"
  from assms(1) have b: "unat (write_idx s) < unat Size" "unat (read_idx s) < unat Size"
    by (simp_all add: well_formed_nat)
  from assms(1) have r: "read_idx s < Size" by (simp add: well_formed_def)
  have wf': "well_formed Size ?s'"
    using assms(1) by (rule TryPop_well_formed)
  have ne: "unat (read_idx s) \<noteq> unat (write_idx s)"
    using assms(2) by (simp add: word_unat_eq_iff)
  have s': "write_idx ?s' = write_idx s"
    "unat (read_idx ?s') = (if unat (read_idx s) + 1 = unat Size then 0 else unat (read_idx s) + 1)"
    using assms(2) by (simp_all add: TryPop_not_empty unat_next_cursor [OF r])
  from ne b show ?thesis
    by (auto simp: live_count_cases [OF wf'] live_count_cases [OF assms(1)] s' split: if_splits)
qed

lemma TryPop_contents:
  assumes "well_formed Size s" and "read_idx s \<noteq> write_idx s"
  shows "contents Size s =
     fst (snd (TryPop Size mf out s)) # contents Size (snd (snd (TryPop Size mf out s)))"
proof -
  let ?s' = "snd (snd (TryPop Size mf out s))"
  let ?n = "unat Size" and ?r = "unat (read_idx s)"
  let ?c' = "live_count Size ?s'"
  from assms(1) have b: "?r < ?n" "length (buffer s) = ?n"
    by (simp_all add: well_formed_nat)
  from assms(1) have r: "read_idx s < Size" by (simp add: well_formed_def)
  have c: "live_count Size s = Suc ?c'"
    using assms by (rule TryPop_live_count)
  then have c': "Suc ?c' < ?n"
    using live_count_less [OF assms(1)] by simp
  have v: "fst (snd (TryPop Size mf out s)) = buffer s ! ?r"
    using assms(2) by (simp add: TryPop_not_empty)
  have s': "buffer ?s' = (buffer s)[?r := mf out (buffer s ! ?r)]"
    "unat (read_idx ?s') = (?r + 1) mod ?n"
    using assms(2) b by (simp_all add: TryPop_not_empty unat_next_cursor [OF r] mod_if)
  have idx: "(unat (read_idx ?s') + i) mod ?n = (?r + Suc i) mod ?n" for i
    by (simp add: s' mod_add_left_eq)
  have other: "(?r + Suc i) mod ?n \<noteq> ?r" if "i < ?c'" for i
    using that c' b by (auto simp: mod_if)
  have rest: "buffer ?s' ! ((unat (read_idx ?s') + i) mod ?n) = buffer s ! ((?r + Suc i) mod ?n)"
    if "i < ?c'" for i
    using other [OF that] by (simp add: idx s'(1))
  have "contents Size s = map (\<lambda>i. buffer s ! ((?r + i) mod ?n)) [0..<Suc ?c']"
    by (simp only: contents_def c)
  also have "\<dots> = buffer s ! ?r # map (\<lambda>i. buffer s ! ((?r + Suc i) mod ?n)) [0..<?c']"
    using b by (simp only: map_upt_Suc) simp
  also have "map (\<lambda>i. buffer s ! ((?r + Suc i) mod ?n)) [0..<?c'] = contents Size ?s'"
    unfolding contents_def by (rule map_cong [symmetric]) (simp_all add: rest)
  finally show ?thesis by (simp add: v)
qed

section \<open>Sequences of calls\<close>

lemma run_Push:
  "run Size mf (Push x # cs) (out, s) =
     (Pushed (fst (TryPush Size x s)) # fst (run Size mf cs (out, snd (TryPush Size x s))),
      snd (run Size mf cs (out, snd (TryPush Size x s))))"
  by (simp add: split_beta)

lemma run_Pop:
  "run Size mf (Pop # cs) (out, s) =
     (Popped (fst (TryPop Size mf out s)) (fst (snd (TryPop Size mf out s)))
        # fst (run Size mf cs (snd (TryPop Size mf out s))),
      snd (run Size mf cs (snd (TryPop Size mf out s))))"
  by (simp add: split_beta)

declare run.simps(2,3) [simp del]

lemma TryPush_success_iff:
  "fst (TryPush Size item s) \<longleftrightarrow> (write_idx s + 1) mod Size \<noteq> read_idx s"
  by (simp add: TryPush_def Let_def)

lemma TryPop_success_iff:
  "fst (TryPop Size mf out s) \<longleftrightarrow> read_idx s \<noteq> write_idx s"
  by (simp add: TryPop_def Let_def)

lemma length_contents: "length (contents Size s) = live_count Size s"
  by (simp add: contents_def)

lemma run_pushes_succeeded:
  assumes "well_formed Size s"
    and "fst (run Size mf (map Push ps) (out, s)) = replicate (length ps) (Pushed True)"
  shows "well_formed Size (snd (snd (run Size mf (map Push ps) (out, s))))
       \<and> contents Size (snd (snd (run Size mf (map Push ps) (out, s)))) = contents Size s @ ps
       \<and> fst (snd (run Size mf (map Push ps) (out, s))) = out"
  using assms
proof (induction ps arbitrary: s)
  case Nil
  then show ?case by simp
next
  case (Cons p ps)
  let ?s1 = "snd (TryPush Size p s)"
  from Cons.prems(2) have ok: "fst (TryPush Size p s)"
    and rest: "fst (run Size mf (map Push ps) (out, ?s1)) = replicate (length ps) (Pushed True)"
    by (simp_all add: run_Push)
  from ok have nf: "(write_idx s + 1) mod Size \<noteq> read_idx s"
    by (simp add: TryPush_success_iff)
  have wf1: "well_formed Size ?s1"
    using Cons.prems(1) by (rule TryPush_well_formed)
  have c1: "contents Size ?s1 = contents Size s @ [p]"
    using Cons.prems(1) nf by (rule TryPush_contents)
  from Cons.IH [OF wf1 rest] show ?case
    by (simp add: run_Push c1)
qed

lemma run_pops:
  assumes "well_formed Size s" and "n \<le> live_count Size s"
  shows "fst (run Size mf (replicate n Pop) (out, s)) = map (Popped True) (take n (contents Size s))"
  using assms
proof (induction n arbitrary: s out)
  case 0
  then show ?case by simp
next
  case (Suc n)
  let ?v = "fst (snd (TryPop Size mf out s))" and ?s1 = "snd (snd (TryPop Size mf out s))"
  from Suc.prems have ne: "read_idx s \<noteq> write_idx s"
    by (auto simp: empty_iff_live_count)
  then have ok: "fst (TryPop Size mf out s)"
    by (simp add: TryPop_success_iff)
  have wf1: "well_formed Size ?s1"
    using Suc.prems(1) by (rule TryPop_well_formed)
  have c: "contents Size s = ?v # contents Size ?s1"
    using Suc.prems(1) ne by (rule TryPop_contents)
  have "n \<le> live_count Size ?s1"
    using Suc.prems(2) TryPop_live_count [OF Suc.prems(1) ne, of mf out] by simp
  from Suc.IH [OF wf1 this, of ?v] ok show ?case
    by (simp add: run_Pop c)
qed

lemma run_pushes_room:
  assumes "well_formed Size s" and "live_count Size s + length ps < unat Size"
  shows "fst (run Size mf (map Push ps) (out, s)) = replicate (length ps) (Pushed True)"
  using assms
proof (induction ps arbitrary: s)
  case Nil
  then show ?case by simp
next
  case (Cons p ps)
  let ?s1 = "snd (TryPush Size p s)"
  from Cons.prems have nf: "(write_idx s + 1) mod Size \<noteq> read_idx s"
    by (simp add: full_iff_live_count)
  have wf1: "well_formed Size ?s1"
    using Cons.prems(1) by (rule TryPush_well_formed)
  have "live_count Size ?s1 + length ps < unat Size"
    using Cons.prems(2) by (simp add: TryPush_live_count [OF Cons.prems(1) nf])
  from Cons.IH [OF wf1 this] nf show ?case
    by (simp add: run_Push TryPush_success_iff)
qed

lemma run_append:
  "run Size mf (cs @ ds) st =
     (fst (run Size mf cs st) @ fst (run Size mf ds (snd (run Size mf cs st))),
      snd (run Size mf ds (snd (run Size mf cs st))))"
proof (induction cs arbitrary: st)
  case Nil
  obtain out s where "st = (out, s)" by (cases st)
  then show ?case by simp
next
  case (Cons c cs)
  obtain out s where st: "st = (out, s)" by (cases st)
  show ?case
    by (cases c) (simp_all add: st run_Push run_Pop Cons.IH)
qed

text \<open>A sequence of calls leads from a reachable state to a reachable state.\<close>

lemma run_reachable:
  "reachable Size mf s \<Longrightarrow> reachable Size mf (snd (snd (run Size mf cs (out, s))))"
proof (induction cs arbitrary: out s)
  case Nil
  then show ?case by simp
next
  case (Cons c cs)
  show ?case
  proof (cases c)
    case (Push x)
    from Cons.IH [OF reachable_push [OF Cons.prems, of x], of out] show ?thesis
      by (simp add: Push run_Push)
  next
    case Pop
    obtain ok out1 s1 where p: "TryPop Size mf out s = (ok, out1, s1)"
      by (cases "TryPop Size mf out s")
    from reachable_pop [OF Cons.prems, of out] have "reachable Size mf s1"
      by (simp add: p)
    from Cons.IH [OF this, of out1] show ?thesis
      by (simp add: Pop run_Pop p)
  qed
qed

section \<open>The properties of the specification\<close>

text \<open>
  C1 (FIFO order). Take a buffer that holds nothing (\<open>read_idx = write_idx\<close>, as in a fresh
  buffer) and push \<open>p1, \<dots>, pk\<close> with no pop in between. If all \<open>k\<close> calls of \<^verbatim>\<open>TryPush\<close>
  return true, then the next \<open>k\<close> calls of \<^verbatim>\<open>TryPop\<close> all return true and deliver
  \<open>p1, \<dots>, pk\<close> in this order. This holds for every capacity that has a well-formed state,
  so for every \<open>Size \<ge> 1\<close>, whatever the slots held before and whatever a move leaves behind.
\<close>
theorem fifo_order:
  assumes "well_formed Size s" and "read_idx s = write_idx s"
    and "fst (run Size mf (map Push ps) (out, s)) = replicate (length ps) (Pushed True)"
  shows "fst (run Size mf (replicate (length ps) Pop) (snd (run Size mf (map Push ps) (out, s))))
         = map (Popped True) ps"
proof -
  obtain rs out' s' where r: "run Size mf (map Push ps) (out, s) = (rs, out', s')"
    by (cases "run Size mf (map Push ps) (out, s)")
  have e: "contents Size s = []"
    using assms(1,2) length_contents [of Size s] by (simp add: empty_iff_live_count)
  from run_pushes_succeeded [OF assms(1,3)]
  have wf': "well_formed Size s'" and c': "contents Size s' = ps"
    by (simp_all add: e r)
  have "length ps \<le> live_count Size s'"
    using length_contents [of Size s'] by (simp add: c')
  from run_pops [OF wf' this, of mf out'] show ?thesis
    by (simp add: r c')
qed

theorem fifo_order_witness:
  "well_formed 4 (fresh 4 (\<lambda>_. 0::nat))
   \<and> read_idx (fresh 4 (\<lambda>_. 0::nat)) = write_idx (fresh 4 (\<lambda>_. 0::nat))
   \<and> fst (run 4 (\<lambda>out v. v) (map Push [10, 20, 30]) (0::nat, fresh 4 (\<lambda>_. 0)))
       = replicate (length [10, 20, 30 :: nat]) (Pushed True)
   \<and> fst (run 4 (\<lambda>out v. v) (replicate (length [10, 20, 30 :: nat]) Pop)
            (snd (run 4 (\<lambda>out v. v) (map Push [10, 20, 30]) (0::nat, fresh 4 (\<lambda>_. 0)))))
       = map (Popped True) [10, 20, 30]"
proof -
  have h1: "well_formed 4 (fresh 4 (\<lambda>_. 0::nat))"
    by (simp add: well_formed_def fresh_def)
  have h2: "read_idx (fresh 4 (\<lambda>_. 0::nat)) = write_idx (fresh 4 (\<lambda>_. 0::nat))"
    by (simp add: fresh_def)
  have h3: "fst (run 4 (\<lambda>out v. v) (map Push [10, 20, 30]) (0::nat, fresh 4 (\<lambda>_. 0)))
       = replicate (length [10, 20, 30 :: nat]) (Pushed True)"
    by (simp add: fresh_def TryPush_def Let_def run.simps(2,3))
  from fifo_order [OF h1 h2 h3] h1 h2 h3 show ?thesis
    by (intro conjI)
qed

text \<open>
  C3 (capacity bound). Starting from a buffer that holds nothing, \<open>Size\<close> calls of
  \<^verbatim>\<open>TryPush\<close> in a row return true \<open>Size - 1\<close> times and then false: the \<open>Size\<close>-th push
  fails. The bound \<open>Size \<ge> 2\<close> of the specification is not needed: for \<open>Size = 1\<close> the
  first push fails.
\<close>
theorem capacity_bound:
  assumes "well_formed Size s" and "read_idx s = write_idx s" and "length ps = unat Size"
  shows "fst (run Size mf (map Push ps) (out, s))
         = replicate (unat Size - 1) (Pushed True) @ [Pushed False]"
proof -
  let ?n = "unat Size"
  from assms(1) have pos: "0 < ?n"
    using well_formed_nat [of Size s] by simp
  define qs where "qs = butlast ps"
  define q where "q = last ps"
  from assms(3) pos have "ps \<noteq> []"
    by auto
  then have ps: "ps = qs @ [q]"
    by (simp add: qs_def q_def)
  have lq: "length qs = ?n - 1"
    by (simp add: qs_def assms(3))
  have c0: "live_count Size s = 0"
    using assms(1,2) by (simp add: empty_iff_live_count)
  have room: "live_count Size s + length qs < ?n"
    using pos by (simp add: c0 lq)
  have ok: "fst (run Size mf (map Push qs) (out, s)) = replicate (length qs) (Pushed True)"
    using assms(1) room by (rule run_pushes_room)
  obtain rs out' s' where r: "run Size mf (map Push qs) (out, s) = (rs, out', s')"
    by (cases "run Size mf (map Push qs) (out, s)")
  from run_pushes_succeeded [OF assms(1) ok]
  have wf': "well_formed Size s'" and c': "contents Size s' = contents Size s @ qs"
    by (simp_all add: r)
  have "live_count Size s' = ?n - 1"
    using length_contents [of Size s'] length_contents [of Size s] by (simp add: c' c0 lq)
  then have full: "(write_idx s' + 1) mod Size = read_idx s'"
    using wf' by (simp add: full_iff_live_count)
  from ok have rs: "rs = replicate (?n - 1) (Pushed True)"
    by (simp add: r lq)
  show ?thesis
    by (simp add: ps run_append r rs run_Push TryPush_success_iff full)
qed


theorem capacity_bound_witness:
  "well_formed 4 (fresh 4 (\<lambda>_. 0::nat))
   \<and> read_idx (fresh 4 (\<lambda>_. 0::nat)) = write_idx (fresh 4 (\<lambda>_. 0::nat))
   \<and> length [10, 20, 30, 40 :: nat] = unat (4 :: size_t)
   \<and> fst (run 4 (\<lambda>out v. v) (map Push [10, 20, 30, 40]) (0::nat, fresh 4 (\<lambda>_. 0)))
       = [Pushed True, Pushed True, Pushed True, Pushed False]"
proof -
  have h1: "well_formed 4 (fresh 4 (\<lambda>_. 0::nat))"
    by (simp add: well_formed_def fresh_def)
  have h2: "read_idx (fresh 4 (\<lambda>_. 0::nat)) = write_idx (fresh 4 (\<lambda>_. 0::nat))"
    by (simp add: fresh_def)
  have h3: "length [10, 20, 30, 40 :: nat] = unat (4 :: size_t)"
    by simp
  have "replicate (unat (4 :: size_t) - 1) (Pushed True) @ [Pushed False]
        = [Pushed True, Pushed True, Pushed True, Pushed False :: nat outcome]"
    by (simp add: numeral_3_eq_3)
  with capacity_bound [OF h1 h2 h3, of "\<lambda>out v. v" 0] h1 h2 h3 show ?thesis
    by simp
qed

text \<open>
  C2 (empty and full). In every state reachable from a fresh buffer of capacity \<open>Size \<ge> 1\<close>:
  \<^verbatim>\<open>TryPop\<close> fails exactly when the two cursors are equal, \<^verbatim>\<open>TryPush\<close> fails exactly when
  the write cursor plus one, modulo the capacity (as natural numbers, without wrap-around
  at \<open>2^64\<close>), is the read cursor, and both cursors are below the capacity.
\<close>
theorem empty_full_cursors:
  assumes "reachable Size mf s" and "0 < Size"
  shows "(\<not> fst (TryPop Size mf out s) \<longleftrightarrow> read_idx s = write_idx s)
       \<and> (\<not> fst (TryPush Size item s)
            \<longleftrightarrow> (unat (write_idx s) + 1) mod unat Size = unat (read_idx s))
       \<and> unat (write_idx s) < unat Size \<and> unat (read_idx s) < unat Size"
proof -
  have wf: "well_formed Size s"
    using assms by (rule reachable_well_formed)
  then have w: "write_idx s < Size"
    by (simp add: well_formed_def)
  have b: "unat (write_idx s) < unat Size" "unat (read_idx s) < unat Size"
    using wf by (simp_all add: well_formed_nat)
  have "unat ((write_idx s + 1) mod Size) = (unat (write_idx s) + 1) mod unat Size"
    using b by (simp add: unat_next_cursor [OF w] mod_if)
  then have "(write_idx s + 1) mod Size = read_idx s
             \<longleftrightarrow> (unat (write_idx s) + 1) mod unat Size = unat (read_idx s)"
    by (simp add: word_unat_eq_iff)
  with b show ?thesis
    by (simp add: TryPop_success_iff TryPush_success_iff)
qed

theorem empty_full_cursors_witness:
  "reachable 4 (\<lambda>out v. v) (snd (TryPush 4 (7::nat) (fresh 4 (\<lambda>_. 0))))
   \<and> (0 :: size_t) < 4
   \<and> fst (TryPop 4 (\<lambda>out v. v) 0 (snd (TryPush 4 (7::nat) (fresh 4 (\<lambda>_. 0)))))
   \<and> fst (TryPush 4 8 (snd (TryPush 4 (7::nat) (fresh 4 (\<lambda>_. 0)))))
   \<and> unat (write_idx (snd (TryPush 4 (7::nat) (fresh 4 (\<lambda>_. 0))))) < unat (4 :: size_t)
   \<and> unat (read_idx (snd (TryPush 4 (7::nat) (fresh 4 (\<lambda>_. 0))))) < unat (4 :: size_t)"
proof -
  have h1: "reachable 4 (\<lambda>out v. v) (snd (TryPush 4 (7::nat) (fresh 4 (\<lambda>_. 0))))"
    by (rule reachable_push, rule reachable_fresh)
  have h2: "(0 :: size_t) < 4"
    by simp
  have e: "read_idx (snd (TryPush 4 (7::nat) (fresh 4 (\<lambda>_. 0))))
           \<noteq> write_idx (snd (TryPush 4 (7::nat) (fresh 4 (\<lambda>_. 0))))"
    by (simp add: TryPush_def fresh_def Let_def)
  have f: "(unat (write_idx (snd (TryPush 4 (7::nat) (fresh 4 (\<lambda>_. 0))))) + 1) mod unat (4 :: size_t)
           \<noteq> unat (read_idx (snd (TryPush 4 (7::nat) (fresh 4 (\<lambda>_. 0)))))"
    by (simp add: TryPush_def fresh_def Let_def)
  from empty_full_cursors [OF h1 h2, of 0 8] h1 h2 e f show ?thesis
    by blast
qed

text \<open>
  C4 (effect of \<^verbatim>\<open>TryPush\<close>). In every well-formed state, for every item: if the buffer is
  full, the call returns false and the whole state, cursors and slots, is as before;
  otherwise it returns true, the slot array differs from the old one by the item written
  at the old write cursor (which is a slot of the array, so reading it back gives the
  item), and the write cursor has advanced by one position modulo the capacity.
\<close>
theorem TryPush_effect:
  assumes "well_formed Size s"
  shows "if (unat (write_idx s) + 1) mod unat Size = unat (read_idx s)
         then TryPush Size item s = (False, s)
         else fst (TryPush Size item s)
            \<and> buffer (snd (TryPush Size item s)) = (buffer s)[unat (write_idx s) := item]
            \<and> buffer (snd (TryPush Size item s)) ! unat (write_idx s) = item
            \<and> unat (write_idx (snd (TryPush Size item s)))
                = (unat (write_idx s) + 1) mod unat Size"
proof -
  from assms have w: "write_idx s < Size"
    by (simp add: well_formed_def)
  have b: "unat (write_idx s) < unat Size" "length (buffer s) = unat Size"
    using assms by (simp_all add: well_formed_nat)
  have n: "unat ((write_idx s + 1) mod Size) = (unat (write_idx s) + 1) mod unat Size"
    using b by (simp add: unat_next_cursor [OF w] mod_if)
  then have full: "(write_idx s + 1) mod Size = read_idx s
             \<longleftrightarrow> (unat (write_idx s) + 1) mod unat Size = unat (read_idx s)"
    by (simp add: word_unat_eq_iff)
  show ?thesis
  proof (cases "(write_idx s + 1) mod Size = read_idx s")
    case True
    then show ?thesis
      using full by (simp add: TryPush_full)
  next
    case False
    then show ?thesis
      using full b n by (simp add: TryPush_not_full)
  qed
qed

theorem TryPush_effect_witness:
  "well_formed 4 \<lparr>write_idx = 3, read_idx = 0, buffer = [1, 2, 3, 0 :: nat]\<rparr>
   \<and> TryPush 4 9 \<lparr>write_idx = 3, read_idx = 0, buffer = [1, 2, 3, 0 :: nat]\<rparr>
       = (False, \<lparr>write_idx = 3, read_idx = 0, buffer = [1, 2, 3, 0]\<rparr>)
   \<and> well_formed 4 \<lparr>write_idx = 3, read_idx = 1, buffer = [1, 2, 3, 0 :: nat]\<rparr>
   \<and> fst (TryPush 4 9 \<lparr>write_idx = 3, read_idx = 1, buffer = [1, 2, 3, 0 :: nat]\<rparr>)
   \<and> buffer (snd (TryPush 4 9 \<lparr>write_idx = 3, read_idx = 1, buffer = [1, 2, 3, 0 :: nat]\<rparr>))
       = [1, 2, 3, 9]
   \<and> unat (write_idx
        (snd (TryPush 4 9 \<lparr>write_idx = 3, read_idx = 1, buffer = [1, 2, 3, 0 :: nat]\<rparr>))) = 0"
proof -
  have h1: "well_formed 4 \<lparr>write_idx = 3, read_idx = 0, buffer = [1, 2, 3, 0 :: nat]\<rparr>"
    by (simp add: well_formed_def)
  have h2: "well_formed 4 \<lparr>write_idx = 3, read_idx = 1, buffer = [1, 2, 3, 0 :: nat]\<rparr>"
    by (simp add: well_formed_def)
  from TryPush_effect [OF h1, of 9] TryPush_effect [OF h2, of 9] h1 h2 show ?thesis
    by simp
qed

text \<open>
  C5 (effect of \<^verbatim>\<open>TryPop\<close>). In every well-formed state: if the buffer is empty, the call
  returns false and leaves the state, cursors and slots, and the output object as they
  were; otherwise it returns true, the output object holds the value that was stored at
  the read cursor, and the read cursor has advanced by one position modulo the capacity.
\<close>
theorem TryPop_effect:
  assumes "well_formed Size s"
  shows "if read_idx s = write_idx s
         then TryPop Size mf out s = (False, out, s)
         else fst (TryPop Size mf out s)
            \<and> fst (snd (TryPop Size mf out s)) = buffer s ! unat (read_idx s)
            \<and> unat (read_idx (snd (snd (TryPop Size mf out s))))
                = (unat (read_idx s) + 1) mod unat Size"
proof -
  from assms have r: "read_idx s < Size"
    by (simp add: well_formed_def)
  have b: "unat (read_idx s) < unat Size"
    using assms by (simp add: well_formed_nat)
  have n: "unat ((read_idx s + 1) mod Size) = (unat (read_idx s) + 1) mod unat Size"
    using b by (simp add: unat_next_cursor [OF r] mod_if)
  show ?thesis
    using n by (simp add: TryPop_empty TryPop_not_empty)
qed

theorem TryPop_effect_witness:
  "well_formed 4 \<lparr>write_idx = 2, read_idx = 2, buffer = [1, 2, 3, 0 :: nat]\<rparr>
   \<and> TryPop 4 (\<lambda>out v. 0) 5 \<lparr>write_idx = 2, read_idx = 2, buffer = [1, 2, 3, 0 :: nat]\<rparr>
       = (False, 5, \<lparr>write_idx = 2, read_idx = 2, buffer = [1, 2, 3, 0]\<rparr>)
   \<and> well_formed 4 \<lparr>write_idx = 2, read_idx = 3, buffer = [1, 2, 3, 7 :: nat]\<rparr>
   \<and> fst (TryPop 4 (\<lambda>out v. 0) 5 \<lparr>write_idx = 2, read_idx = 3, buffer = [1, 2, 3, 7 :: nat]\<rparr>)
   \<and> fst (snd (TryPop 4 (\<lambda>out v. 0) 5
        \<lparr>write_idx = 2, read_idx = 3, buffer = [1, 2, 3, 7 :: nat]\<rparr>)) = 7
   \<and> unat (read_idx (snd (snd (TryPop 4 (\<lambda>out v. 0) 5
        \<lparr>write_idx = 2, read_idx = 3, buffer = [1, 2, 3, 7 :: nat]\<rparr>)))) = 0"
proof -
  have h1: "well_formed 4 \<lparr>write_idx = 2, read_idx = 2, buffer = [1, 2, 3, 0 :: nat]\<rparr>"
    by (simp add: well_formed_def)
  have h2: "well_formed 4 \<lparr>write_idx = 2, read_idx = 3, buffer = [1, 2, 3, 7 :: nat]\<rparr>"
    by (simp add: well_formed_def)
  from TryPop_effect [OF h1, of "\<lambda>out v. 0" 5] TryPop_effect [OF h2, of "\<lambda>out v. 0" 5] h1 h2
  show ?thesis
    by simp
qed

text \<open>
  C6 (concrete scenario). On a fresh buffer of capacity 4, for any items \<open>A, \<dots>, F\<close>: pushing
  \<open>A\<close>, \<open>B\<close>, \<open>C\<close> succeeds, pushing \<open>D\<close> fails, two pops deliver \<open>A\<close> and \<open>B\<close>, pushing \<open>D\<close>
  and \<open>E\<close> succeeds, pushing \<open>F\<close> fails, three pops deliver \<open>C\<close>, \<open>D\<close>, \<open>E\<close>, and a last pop
  fails, leaving \<open>E\<close> in the output object.
\<close>
theorem concrete_scenario:
  "fst (run 4 mf
       [Push A, Push B, Push C, Push D, Pop, Pop, Push D, Push E, Push F, Pop, Pop, Pop, Pop]
       (out, fresh 4 init))
   = [Pushed True, Pushed True, Pushed True, Pushed False, Popped True A, Popped True B,
      Pushed True, Pushed True, Pushed False,
      Popped True C, Popped True D, Popped True E, Popped False E]"
  by (simp add: fresh_def TryPush_def TryPop_def Let_def run.simps(2,3))

text \<open>
  C7 (capacity 1). In every state reachable from a fresh buffer of capacity 1, every
  \<^verbatim>\<open>TryPush\<close> returns false and every \<^verbatim>\<open>TryPop\<close> returns false: such a buffer never holds
  an element.
\<close>
theorem capacity_one_unusable:
  assumes "reachable 1 mf s"
  shows "\<not> fst (TryPush 1 item s) \<and> \<not> fst (TryPop 1 mf out s)"
proof -
  have "well_formed 1 s"
    using assms by (rule reachable_well_formed) simp
  then have "unat (write_idx s) < 1" "unat (read_idx s) < 1"
    using well_formed_nat [of 1 s] by simp_all
  then have "write_idx s = 0" "read_idx s = 0"
    by (simp_all add: unat_eq_0)
  then show ?thesis
    by (simp add: TryPush_success_iff TryPop_success_iff)
qed

theorem capacity_one_unusable_witness:
  "reachable 1 (\<lambda>out v. v) (snd (TryPush 1 (7::nat) (fresh 1 (\<lambda>_. 0))))
   \<and> \<not> fst (TryPush 1 8 (snd (TryPush 1 (7::nat) (fresh 1 (\<lambda>_. 0)))))
   \<and> \<not> fst (TryPop 1 (\<lambda>out v. v) 0 (snd (TryPush 1 (7::nat) (fresh 1 (\<lambda>_. 0)))))"
proof -
  have h: "reachable 1 (\<lambda>out v. v) (snd (TryPush 1 (7::nat) (fresh 1 (\<lambda>_. 0))))"
    by (rule reachable_push, rule reachable_fresh)
  from capacity_one_unusable [OF h, of 8 0] h show ?thesis
    by simp
qed

text \<open>
  C9 (output object on failure). When \<^verbatim>\<open>TryPop\<close> returns false, the object behind the
  output pointer is what it was before the call. This holds in every state.
\<close>
theorem TryPop_failure_keeps_output:
  "\<not> fst (TryPop Size mf out s) \<Longrightarrow> fst (snd (TryPop Size mf out s)) = out"
  by (simp add: TryPop_def Let_def split: if_splits)

theorem TryPop_failure_keeps_output_witness:
  "\<not> fst (TryPop 4 (\<lambda>out v. v) (5::nat) (fresh 4 (\<lambda>_. 0)))
   \<and> fst (snd (TryPop 4 (\<lambda>out v. v) (5::nat) (fresh 4 (\<lambda>_. 0)))) = 5"
proof -
  have h: "\<not> fst (TryPop 4 (\<lambda>out v. v) (5::nat) (fresh 4 (\<lambda>_. 0)))"
    by (simp add: TryPop_def fresh_def)
  from TryPop_failure_keeps_output [OF h] h show ?thesis
    by simp
qed

text \<open>
  C10 (frame). A successful \<^verbatim>\<open>TryPush\<close> leaves the read cursor, the number of slots and
  every slot other than the one at the old write cursor as they were; a successful
  \<^verbatim>\<open>TryPop\<close> leaves the write cursor as it was. The pushed argument is an input only in
  the embedding, as the reference to const makes it in the program, so no call changes it.
\<close>
theorem frame_of_successful_calls:
  "(fst (TryPush Size item s) \<longrightarrow>
      read_idx (snd (TryPush Size item s)) = read_idx s
      \<and> length (buffer (snd (TryPush Size item s))) = length (buffer s)
      \<and> (\<forall>i. i \<noteq> unat (write_idx s) \<longrightarrow>
            buffer (snd (TryPush Size item s)) ! i = buffer s ! i))
   \<and> (fst (TryPop Size mf out s) \<longrightarrow>
      write_idx (snd (snd (TryPop Size mf out s))) = write_idx s)"
  by (simp add: TryPush_def TryPop_def Let_def)

theorem frame_of_successful_calls_witness:
  "fst (TryPush 4 9 \<lparr>write_idx = 1, read_idx = 0, buffer = [5, 6, 7, 8 :: nat]\<rparr>)
   \<and> fst (TryPop 4 (\<lambda>out v. 0) 3 \<lparr>write_idx = 1, read_idx = 0, buffer = [5, 6, 7, 8 :: nat]\<rparr>)
   \<and> read_idx (snd (TryPush 4 9 \<lparr>write_idx = 1, read_idx = 0, buffer = [5, 6, 7, 8 :: nat]\<rparr>)) = 0
   \<and> buffer (snd (TryPush 4 9 \<lparr>write_idx = 1, read_idx = 0, buffer = [5, 6, 7, 8 :: nat]\<rparr>))
       = [5, 9, 7, 8]
   \<and> write_idx (snd (snd (TryPop 4 (\<lambda>out v. 0) 3
        \<lparr>write_idx = 1, read_idx = 0, buffer = [5, 6, 7, 8 :: nat]\<rparr>))) = 1"
proof -
  have h1: "fst (TryPush 4 9 \<lparr>write_idx = 1, read_idx = 0, buffer = [5, 6, 7, 8 :: nat]\<rparr>)"
    by (simp add: TryPush_def)
  have h2: "fst (TryPop 4 (\<lambda>out v. 0) 3 \<lparr>write_idx = 1, read_idx = 0, buffer = [5, 6, 7, 8 :: nat]\<rparr>)"
    by (simp add: TryPop_def)
  have b: "buffer (snd (TryPush 4 9 \<lparr>write_idx = 1, read_idx = 0, buffer = [5, 6, 7, 8 :: nat]\<rparr>))
       = [5, 9, 7, 8]"
    by (simp add: TryPush_def)
  from frame_of_successful_calls
         [of 4 9 "\<lparr>write_idx = 1, read_idx = 0, buffer = [5, 6, 7, 8 :: nat]\<rparr>" "\<lambda>out v. 0" 3]
       h1 h2 b
  show ?thesis
    by simp
qed

end
